theory Spec2Isabelle
  imports Complex_Main "HOL-Library.Word"
begin

section \<open>SkShaper (HarfBuzz back end): data model\<close>

text \<open>
  The development embeds \<^verbatim>\<open>modules/skshaper/src/SkShaper_harfbuzz.cpp\<close>.
  Byte pointers into the input text are offsets (\<open>nat\<close>) from \<^verbatim>\<open>utf8\<close>; a nullable
  pointer is an \<open>option\<close>.  \<^verbatim>\<open>SkScalar\<close> values are exact rationals: rounding, NaN
  and infinities of IEEE arithmetic are outside the model.
\<close>

type_synonym SkScalar = rat
type_synonym SkUnichar = int
type_synonym UBiDiLevel = nat

record SkPoint =
  fX :: SkScalar
  fY :: SkScalar

type_synonym SkVector = SkPoint

record SkFontMetrics =
  fAscent :: SkScalar
  fDescent :: SkScalar
  fLeading :: SkScalar

text \<open>\<^verbatim>\<open>SkFont\<close>: the fields the shaper reads or overrides.\<close>

record 'tf SkFont =
  fontTypeface :: "'tf option"
  fontSize :: SkScalar
  fontScaleX :: SkScalar

datatype hb_script_t =
  HB_SCRIPT_COMMON | HB_SCRIPT_INHERITED | HB_SCRIPT_UNKNOWN | HB_SCRIPT_OTHER nat

record hb_glyph_info_t =
  codepoint :: nat
  cluster :: nat

record hb_glyph_position_t =
  x_advance :: int
  y_advance :: int
  x_offset :: int
  y_offset :: int

record UBiDi =
  ubidi_getLength :: int
  ubidi_getLevelAt :: "int \<Rightarrow> UBiDiLevel"

text \<open>
  The collaborators of the shaper (ICU, HarfBuzz, the typeface and the font manager) are
  not part of the translation unit; they are the fields of an environment.  Every field
  is a pure function of the call it stands for, with the input text fixed.
\<close>

record ('tf, 'hb) Env =
  decodeUTF8 :: "nat \<Rightarrow> nat \<Rightarrow> int \<times> nat"
  u_strFromUTF8 :: "nat \<Rightarrow> int option"
  ubidi_openSized :: "int \<Rightarrow> bool"
  ubidi_setPara :: "int \<Rightarrow> UBiDiLevel \<Rightarrow> UBiDi option"
  ubidi_reorderVisual :: "UBiDiLevel list \<Rightarrow> nat list"
  hb_unicode_script :: "SkUnichar \<Rightarrow> hb_script_t"
  charsToGlyphs :: "'tf \<Rightarrow> SkUnichar \<Rightarrow> bool"
  matchFamilyStyleCharacter :: "SkUnichar \<Rightarrow> 'tf option"
  hb_font_of_typeface :: "'tf \<Rightarrow> 'hb option"
  hb_shape :: "'hb \<Rightarrow> (SkUnichar \<times> nat) list \<Rightarrow> hb_script_t \<Rightarrow> bool \<Rightarrow>
    (hb_glyph_info_t \<times> hb_glyph_position_t) list"
  hb_font_get_scale :: "'hb \<Rightarrow> int \<times> int"
  getMetrics :: "'tf SkFont \<Rightarrow> SkFontMetrics"
  utext_openUTF8 :: "nat \<Rightarrow> bool"
  ubrk_setUText :: "int list option"

datatype error =
  NullDereference | BidiTextTooLong | InvalidUtf8 | BidiError
  | UTextError | BreakIteratorError | Utf8TooLong | TooManyGlyphs

subsection \<open>Decoding\<close>

text \<open>
  Modelled from the spec: \<^verbatim>\<open>SkUTF::NextUTF8\<close> is declared in \<^verbatim>\<open>SkUTF.h\<close>, which is not
  among the sources.  It decodes the code point at \<open>ptr\<close> and moves the pointer on by at
  least one byte, never past \<open>end\<close>; a negative value reports an ill-formed sequence.
  The environment's \<open>decodeUTF8\<close> gives the value and the number of bytes consumed
  beyond the first.
\<close>

definition NextUTF8 :: "('tf, 'hb) Env \<Rightarrow> nat \<Rightarrow> nat \<Rightarrow> SkUnichar \<times> nat" where
  "NextUTF8 env ptr end_ptr =
     (let (val, extra) = decodeUTF8 env ptr end_ptr
      in (val, min end_ptr (ptr + 1 + extra)))"

text \<open>
  Modelled from the spec: \<^verbatim>\<open>SkUTF::ToUTF16\<close> (also of \<^verbatim>\<open>SkUTF.h\<close>) gives the UTF-16
  width of a code point, one or two code units.
\<close>

definition ToUTF16 :: "SkUnichar \<Rightarrow> int" where
  "ToUTF16 u = (if u > 0xFFFF then 2 else 1)"

text \<open>\<^verbatim>\<open>utf8_next\<close>: ill-formed sequences decode to U+FFFD.\<close>

definition utf8_next :: "('tf, 'hb) Env \<Rightarrow> nat \<Rightarrow> nat \<Rightarrow> SkUnichar \<times> nat" where
  "utf8_next env ptr end_ptr =
     (let (val, ptr') = NextUTF8 env ptr end_ptr
      in if val < 0 then (0xFFFD, ptr') else (val, ptr'))"

text \<open>
  \<^verbatim>\<open>create_hb_font\<close>: a null typeface has no HarfBuzz font; for any other typeface the
  result is the environment's (null when the typeface has no data or HarfBuzz fails).
\<close>

definition create_hb_font :: "('tf, 'hb) Env \<Rightarrow> 'tf option \<Rightarrow> 'hb option" where
  "create_hb_font env tf = (case tf of None \<Rightarrow> None | Some t \<Rightarrow> hb_font_of_typeface env t)"

lemma utf8_next_snd: "snd (utf8_next env p e) = min e (p + 1 + snd (decodeUTF8 env p e))"
  by (simp add: utf8_next_def NextUTF8_def split: prod.splits)

lemma utf8_next_advances:
  assumes "utf8_next env p e = (u, p')" and "p < e"
  shows "p < p' \<and> p' \<le> e"
  using assms utf8_next_snd [of env p e] by simp

section \<open>Run iterators\<close>

subsection \<open>FontRunIterator\<close>

record ('tf, 'hb) FontRunIterator =
  fCurrent :: nat
  fEnd :: nat
  fHBFont :: "'hb option"
  fTypeface :: 'tf
  fFallbackHBFont :: "'hb option"
  fFallbackTypeface :: "'tf option"
  fCurrentHBFont :: "'hb option"
  fCurrentTypeface :: "'tf option"

definition FontRunIterator_Make ::
  "nat \<Rightarrow> nat \<Rightarrow> 'tf \<Rightarrow> 'hb option \<Rightarrow> ('tf, 'hb) FontRunIterator option" where
  "FontRunIterator_Make utf8 utf8Bytes typeface hbFace =
     Some \<lparr> fCurrent = utf8, fEnd = utf8 + utf8Bytes, fHBFont = hbFace, fTypeface = typeface,
            fFallbackHBFont = None, fFallbackTypeface = None,
            fCurrentHBFont = hbFace, fCurrentTypeface = Some typeface \<rparr>"

text \<open>
  The extension loop of \<^verbatim>\<open>FontRunIterator::consume\<close>.  The second test calls
  \<^verbatim>\<open>fCurrentTypeface->charsToGlyphs\<close> without a null check: with a null current typeface
  the call dereferences a null pointer.
\<close>

function Font_consume_loop ::
  "('tf, 'hb) Env \<Rightarrow> ('tf, 'hb) FontRunIterator \<Rightarrow> error + ('tf, 'hb) FontRunIterator" where
  "Font_consume_loop env it =
     (if fCurrent it < fEnd it then
        (let prev = fCurrent it;
             r = utf8_next env (fCurrent it) (fEnd it);
             u = fst r;
             it1 = it\<lparr>fCurrent := snd r\<rparr>
         in if fCurrentTypeface it1 \<noteq> Some (fTypeface it1) \<and> charsToGlyphs env (fTypeface it1) u
            then Inr (it1\<lparr>fCurrent := prev\<rparr>)
            else (case fCurrentTypeface it1 of
                    None \<Rightarrow> Inl NullDereference
                  | Some tf \<Rightarrow>
                      if \<not> charsToGlyphs env tf u then Inr (it1\<lparr>fCurrent := prev\<rparr>)
                      else Font_consume_loop env it1))
      else Inr it)"
  by pat_completeness auto
termination
proof (relation "measure (\<lambda>(env, it). fEnd it - fCurrent it)")
  show "wf (measure (\<lambda>(env, it). fEnd it - fCurrent it))" by simp
next
  fix env :: "('tf, 'hb) Env" and it :: "('tf, 'hb) FontRunIterator"
    and x xa xb xc x2
  assume lt: "fCurrent it < fEnd it" and r: "xa = utf8_next env (fCurrent it) (fEnd it)"
    and it1: "xc = it\<lparr>fCurrent := snd xa\<rparr>"
  have "fCurrent it < snd xa \<and> snd xa \<le> fEnd it"
    using utf8_next_advances [of env "fCurrent it" "fEnd it" "fst xa" "snd xa"] lt r by simp
  then show "((env, xc), env, it) \<in> measure (\<lambda>(env, it). fEnd it - fCurrent it)"
    unfolding it1 by (simp add: diff_less_mono2)
qed

declare Font_consume_loop.simps [simp del]

definition Font_consume ::
  "('tf, 'hb) Env \<Rightarrow> ('tf, 'hb) FontRunIterator \<Rightarrow> error + ('tf, 'hb) FontRunIterator" where
  "Font_consume env it =
     (let r = utf8_next env (fCurrent it) (fEnd it);
          u = fst r;
          it1 = it\<lparr>fCurrent := snd r\<rparr>;
          it2 =
            (if charsToGlyphs env (fTypeface it1) u
             then it1\<lparr>fCurrentTypeface := Some (fTypeface it1), fCurrentHBFont := fHBFont it1\<rparr>
             else if fFallbackTypeface it1 \<noteq> None
                     \<and> charsToGlyphs env (the (fFallbackTypeface it1)) u
             then it1\<lparr>fCurrentTypeface := fFallbackTypeface it1,
                      fCurrentHBFont := fFallbackHBFont it1\<rparr>
             else (let fb = matchFamilyStyleCharacter env u;
                       fbhb = create_hb_font env fb
                   in it1\<lparr>fFallbackTypeface := fb, fFallbackHBFont := fbhb,
                          fCurrentTypeface := fb, fCurrentHBFont := fbhb\<rparr>))
      in Font_consume_loop env it2)"


subsection \<open>BiDiRunIterator\<close>

definition UBIDI_DEFAULT_LTR :: UBiDiLevel where "UBIDI_DEFAULT_LTR = 0xfe"
definition UBIDI_DEFAULT_RTL :: UBiDiLevel where "UBIDI_DEFAULT_RTL = 0xff"
definition UBRK_DONE :: int where "UBRK_DONE = -1"
definition INT32_MAX :: nat where "INT32_MAX = 2147483647"

record BiDiRunIterator =
  fBidi :: UBiDi
  fEndOfCurrentRun :: nat
  fEndOfAllRuns :: nat
  fUTF16LogicalPosition :: int
  fLevel :: UBiDiLevel

text \<open>
  \<^verbatim>\<open>BiDiRunIterator::Make\<close>: the result is empty when the text is longer than an
  \<^verbatim>\<open>int32_t\<close> can count, when the conversion to UTF-16 fails, and when ICU cannot open
  or set up the paragraph.
\<close>

definition BiDiRunIterator_Make ::
  "('tf, 'hb) Env \<Rightarrow> nat \<Rightarrow> nat \<Rightarrow> UBiDiLevel \<Rightarrow> error + BiDiRunIterator" where
  "BiDiRunIterator_Make env utf8 utf8Bytes level =
     (if \<not> utf8Bytes \<le> INT32_MAX then Inl BidiTextTooLong
      else (case u_strFromUTF8 env utf8Bytes of
        None \<Rightarrow> Inl InvalidUtf8
      | Some utf16Units \<Rightarrow>
          if \<not> ubidi_openSized env utf16Units then Inl BidiError
          else (case ubidi_setPara env utf16Units level of
            None \<Rightarrow> Inl BidiError
          | Some bidi \<Rightarrow>
              Inr \<lparr> fBidi = bidi, fEndOfCurrentRun = utf8, fEndOfAllRuns = utf8 + utf8Bytes,
                    fUTF16LogicalPosition = 0, fLevel = UBIDI_DEFAULT_LTR \<rparr>)))"

function BiDi_consume_loop ::
  "('tf, 'hb) Env \<Rightarrow> int \<Rightarrow> BiDiRunIterator \<Rightarrow> BiDiRunIterator" where
  "BiDi_consume_loop env endPosition it =
     (if fUTF16LogicalPosition it < endPosition then
        (let level = ubidi_getLevelAt (fBidi it) (fUTF16LogicalPosition it)
         in if level \<noteq> fLevel it then it
            else (let r = utf8_next env (fEndOfCurrentRun it) (fEndOfAllRuns it)
                  in BiDi_consume_loop env endPosition
                       (it\<lparr>fEndOfCurrentRun := snd r,
                           fUTF16LogicalPosition := fUTF16LogicalPosition it + ToUTF16 (fst r)\<rparr>)))
      else it)"
  by pat_completeness auto
termination
  by (relation "measure (\<lambda>(env, endPosition, it). nat (endPosition - fUTF16LogicalPosition it))")
    (auto simp: ToUTF16_def)

declare BiDi_consume_loop.simps [simp del]

definition BiDi_consume :: "('tf, 'hb) Env \<Rightarrow> BiDiRunIterator \<Rightarrow> BiDiRunIterator" where
  "BiDi_consume env it =
     (let endPosition = ubidi_getLength (fBidi it);
          level = ubidi_getLevelAt (fBidi it) (fUTF16LogicalPosition it);
          r = utf8_next env (fEndOfCurrentRun it) (fEndOfAllRuns it)
      in BiDi_consume_loop env endPosition
           (it\<lparr>fLevel := level, fEndOfCurrentRun := snd r,
               fUTF16LogicalPosition := fUTF16LogicalPosition it + ToUTF16 (fst r)\<rparr>))"

definition currentLevel :: "BiDiRunIterator \<Rightarrow> UBiDiLevel" where
  "currentLevel it = fLevel it"

subsection \<open>ScriptRunIterator\<close>

record ScriptRunIterator =
  fScriptCurrent :: nat
  fScriptEnd :: nat
  fCurrentScript :: hb_script_t

definition ScriptRunIterator_Make :: "nat \<Rightarrow> nat \<Rightarrow> ScriptRunIterator option" where
  "ScriptRunIterator_Make utf8 utf8Bytes =
     Some \<lparr> fScriptCurrent = utf8, fScriptEnd = utf8 + utf8Bytes,
            fCurrentScript = HB_SCRIPT_UNKNOWN \<rparr>"

function Script_consume_loop ::
  "('tf, 'hb) Env \<Rightarrow> ScriptRunIterator \<Rightarrow> ScriptRunIterator" where
  "Script_consume_loop env it =
     (if fScriptCurrent it < fScriptEnd it then
        (let prev = fScriptCurrent it;
             r = utf8_next env (fScriptCurrent it) (fScriptEnd it);
             it1 = it\<lparr>fScriptCurrent := snd r\<rparr>;
             script = hb_unicode_script env (fst r)
         in if script \<noteq> fCurrentScript it1 then
              (if fCurrentScript it1 = HB_SCRIPT_INHERITED \<or> fCurrentScript it1 = HB_SCRIPT_COMMON
               then Script_consume_loop env (it1\<lparr>fCurrentScript := script\<rparr>)
               else if script = HB_SCRIPT_INHERITED \<or> script = HB_SCRIPT_COMMON
               then Script_consume_loop env it1
               else it1\<lparr>fScriptCurrent := prev\<rparr>)
            else Script_consume_loop env it1)
      else it)"
  by pat_completeness auto
termination
proof (relation "measure (\<lambda>(env, it). fScriptEnd it - fScriptCurrent it)", goal_cases)
  case 1
  show ?case by simp
next
  case (2 env it prev r it1 script)
  then show ?case
    using utf8_next_advances [of env "fScriptCurrent it" "fScriptEnd it" "fst r" "snd r"]
    by (simp add: diff_less_mono2)
next
  case (3 env it prev r it1 script)
  then show ?case
    using utf8_next_advances [of env "fScriptCurrent it" "fScriptEnd it" "fst r" "snd r"]
    by (simp add: diff_less_mono2)
next
  case (4 env it prev r it1 script)
  then show ?case
    using utf8_next_advances [of env "fScriptCurrent it" "fScriptEnd it" "fst r" "snd r"]
    by (simp add: diff_less_mono2)
qed

declare Script_consume_loop.simps [simp del]

definition Script_consume :: "('tf, 'hb) Env \<Rightarrow> ScriptRunIterator \<Rightarrow> ScriptRunIterator" where
  "Script_consume env it =
     (let r = utf8_next env (fScriptCurrent it) (fScriptEnd it);
          it1 = it\<lparr>fScriptCurrent := snd r, fCurrentScript := hb_unicode_script env (fst r)\<rparr>;
          it2 = Script_consume_loop env it1
      in if fCurrentScript it2 = HB_SCRIPT_INHERITED
         then it2\<lparr>fCurrentScript := HB_SCRIPT_COMMON\<rparr> else it2)"

subsection \<open>The abstract class RunIterator\<close>

text \<open>
  The three implementations of the abstract class are the constructors of one type; the
  virtual methods dispatch on the constructor.
\<close>

datatype ('tf, 'hb) RunIterator =
  BiDi BiDiRunIterator | Script ScriptRunIterator | Font "('tf, 'hb) FontRunIterator"

fun endOfCurrentRun :: "('tf, 'hb) RunIterator \<Rightarrow> nat" where
  "endOfCurrentRun (BiDi it) = fEndOfCurrentRun it"
| "endOfCurrentRun (Script it) = fScriptCurrent it"
| "endOfCurrentRun (Font it) = fCurrent it"

fun atEnd :: "('tf, 'hb) RunIterator \<Rightarrow> bool" where
  "atEnd (BiDi it) = (fUTF16LogicalPosition it = ubidi_getLength (fBidi it))"
| "atEnd (Script it) = (fScriptCurrent it = fScriptEnd it)"
| "atEnd (Font it) = (fCurrent it = fEnd it)"

fun consume :: "('tf, 'hb) Env \<Rightarrow> ('tf, 'hb) RunIterator \<Rightarrow> error + ('tf, 'hb) RunIterator" where
  "consume env (BiDi it) = Inr (BiDi (BiDi_consume env it))"
| "consume env (Script it) = Inr (Script (Script_consume env it))"
| "consume env (Font it) = map_sum id Font (Font_consume env it)"

section \<open>RunIteratorQueue\<close>

text \<open>
  Modelled from the spec: \<^verbatim>\<open>SkTDPQueue\<close> (\<^verbatim>\<open>SkTDPQueue.h\<close> is not among the sources) is a
  min-priority queue.  The queue holds pointers to the iterators, here indices into the
  list of the iterators; \<open>peek\<close> is an entry whose iterator is least in the order
  \<^verbatim>\<open>CompareRunIterator\<close>, which compares \<^verbatim>\<open>endOfCurrentRun()\<close>.
\<close>

definition queue_peek :: "('it \<Rightarrow> nat) \<Rightarrow> 'it list \<Rightarrow> nat list \<Rightarrow> nat" where
  "queue_peek endOf its q = arg_min_list (\<lambda>i. endOf (its ! i)) q"

definition queue_pop :: "('it \<Rightarrow> nat) \<Rightarrow> 'it list \<Rightarrow> nat list \<Rightarrow> nat list" where
  "queue_pop endOf its q = remove1 (queue_peek endOf its q) q"

definition queue_insert :: "nat \<Rightarrow> nat list \<Rightarrow> nat list" where
  "queue_insert i q = q @ [i]"

text \<open>
  The loop of \<^verbatim>\<open>RunIteratorQueue::advanceRuns\<close>, over any implementation of the
  iterator interface (\<open>consume\<close>, \<open>endOf\<close>).  The loop runs for as long as the least
  iterator ends at or before \<open>leastEnd\<close>; \<open>None\<close> is a loop that never ends.
\<close>

partial_function (option) advanceRuns_loop ::
  "('it \<Rightarrow> 'e + 'it) \<Rightarrow> ('it \<Rightarrow> nat) \<Rightarrow> nat \<Rightarrow> 'it list \<Rightarrow> nat list
    \<Rightarrow> ('e + 'it list \<times> nat list) option" where
  "advanceRuns_loop consume_it endOf leastEnd its q =
     (let currentRun = queue_peek endOf its q
      in if endOf (its ! currentRun) \<le> leastEnd then
           (let q1 = queue_pop endOf its q
            in case consume_it (its ! currentRun) of
                 Inl e \<Rightarrow> Some (Inl e)
               | Inr it' \<Rightarrow>
                   advanceRuns_loop consume_it endOf leastEnd
                     (its[currentRun := it']) (queue_insert currentRun q1))
         else Some (Inr (its, q)))"

definition advanceRuns ::
  "('it \<Rightarrow> 'e + 'it) \<Rightarrow> ('it \<Rightarrow> nat) \<Rightarrow> ('it \<Rightarrow> bool) \<Rightarrow> 'it list \<Rightarrow> nat list
    \<Rightarrow> ('e + bool \<times> 'it list \<times> nat list) option" where
  "advanceRuns consume_it endOf at_end its q =
     (let leastRun = its ! queue_peek endOf its q
      in if at_end leastRun then Some (Inr (False, its, q))
         else (case advanceRuns_loop consume_it endOf (endOf leastRun) its q of
                 None \<Rightarrow> None
               | Some (Inl e) \<Rightarrow> Some (Inl e)
               | Some (Inr (its', q')) \<Rightarrow> Some (Inr (True, its', q'))))"

definition queue_endOfCurrentRun :: "('it \<Rightarrow> nat) \<Rightarrow> 'it list \<Rightarrow> nat list \<Rightarrow> nat" where
  "queue_endOfCurrentRun endOf its q = endOf (its ! queue_peek endOf its q)"

text \<open>
  The segment loop of \<^verbatim>\<open>SkShaper::shape\<close>:
  \<^verbatim>\<open>while (runSegmenter.advanceRuns()) { utf8Start = utf8End; utf8End = runSegmenter.endOfCurrentRun(); ... }\<close>.
  The rest of the loop body is the parameter \<open>body\<close>, which maps the segment, the
  iterators and the loop's variables \<open>acc\<close> to the new variables, or to an error where
  the body returns from \<^verbatim>\<open>shape\<close>.
\<close>

partial_function (option) segment_loop ::
  "('it \<Rightarrow> 'e + 'it) \<Rightarrow> ('it \<Rightarrow> nat) \<Rightarrow> ('it \<Rightarrow> bool)
    \<Rightarrow> (nat \<Rightarrow> nat \<Rightarrow> 'it list \<Rightarrow> 'a \<Rightarrow> 'e + 'a)
    \<Rightarrow> nat \<Rightarrow> 'it list \<Rightarrow> nat list \<Rightarrow> 'a \<Rightarrow> ('e + 'a) option" where
  "segment_loop consume_it endOf at_end body utf8End its q acc =
     (case advanceRuns consume_it endOf at_end its q of
        None \<Rightarrow> None
      | Some (Inl e) \<Rightarrow> Some (Inl e)
      | Some (Inr (advanced, its', q')) \<Rightarrow>
          if advanced then
            (let utf8Start = utf8End;
                 utf8End' = queue_endOfCurrentRun endOf its' q'
             in case body utf8Start utf8End' its' acc of
                  Inl e \<Rightarrow> Some (Inl e)
                | Inr acc' \<Rightarrow>
                    segment_loop consume_it endOf at_end body utf8End' its' q' acc')
          else Some (Inr acc))"

text \<open>The segments alone: the body records \<open>[utf8Start, utf8End)\<close> and does nothing else.\<close>

definition record_segment ::
  "nat \<Rightarrow> nat \<Rightarrow> 'it list \<Rightarrow> (nat \<times> nat) list \<Rightarrow> 'e + (nat \<times> nat) list" where
  "record_segment utf8Start utf8End its acc = Inr (acc @ [(utf8Start, utf8End)])"

definition segments ::
  "('it \<Rightarrow> 'e + 'it) \<Rightarrow> ('it \<Rightarrow> nat) \<Rightarrow> ('it \<Rightarrow> bool) \<Rightarrow> 'it list
    \<Rightarrow> ('e + (nat \<times> nat) list) option" where
  "segments consume_it endOf at_end its =
     segment_loop consume_it endOf at_end record_segment 0 its
       (foldl (\<lambda>q i. queue_insert i q) [] [0..<length its]) []"

text \<open>
  \<open>partitions a b segs\<close>: the segments start at \<open>a\<close>, each is non-empty and starts where
  the one before it ends, and the last ends at \<open>b\<close>.
\<close>

fun partitions :: "nat \<Rightarrow> nat \<Rightarrow> (nat \<times> nat) list \<Rightarrow> bool" where
  "partitions a b [] = (a = b)"
| "partitions a b ((s, e) # segs) = (s = a \<and> a < e \<and> partitions e b segs)"

text \<open>
  The contract of an iterator, relative to the length \<open>N\<close> of the text and to a set
  \<open>valid_it\<close> of iterator states that \<open>consume\<close> does not leave: the end of the current
  run is at most \<open>N\<close>, the iterator is at its end exactly when that end is \<open>N\<close>, and
  \<open>consume\<close> of an iterator that is not at its end succeeds and strictly advances the end
  of the current run.
\<close>

definition iterator_contract ::
  "('it \<Rightarrow> 'e + 'it) \<Rightarrow> ('it \<Rightarrow> nat) \<Rightarrow> ('it \<Rightarrow> bool) \<Rightarrow> ('it \<Rightarrow> bool) \<Rightarrow> nat \<Rightarrow> bool" where
  "iterator_contract consume_it endOf at_end valid_it N \<longleftrightarrow>
     (\<forall>it. valid_it it \<longrightarrow>
        endOf it \<le> N \<and> (at_end it \<longleftrightarrow> endOf it = N) \<and>
        (\<not> at_end it \<longrightarrow> (\<exists>it'. consume_it it = Inr it' \<and> valid_it it' \<and> endOf it < endOf it')))"

definition queue_ok :: "('it \<Rightarrow> bool) \<Rightarrow> 'it list \<Rightarrow> nat list \<Rightarrow> bool" where
  "queue_ok valid_it its q \<longleftrightarrow> q \<noteq> [] \<and> distinct q \<and> set q = {..<length its} \<and> (\<forall>it\<in>set its. valid_it it)"

text \<open>The states of a \<^verbatim>\<open>ScriptRunIterator\<close> over a text of \<open>N\<close> bytes.\<close>

definition valid_script :: "nat \<Rightarrow> ('tf, 'hb) RunIterator \<Rightarrow> bool" where
  "valid_script N it =
     (case it of Script s \<Rightarrow> fScriptEnd s = N \<and> fScriptCurrent s \<le> N | _ \<Rightarrow> False)"

section \<open>Shaped runs and the glyph cursor\<close>

record ShapedGlyph =
  fID :: nat
  fCluster :: nat
  fOffset :: SkPoint
  fAdvance :: SkVector
  fMayLineBreakBefore :: bool
  fMustLineBreakBefore :: bool
  fHasVisual :: bool

text \<open>
  \<^verbatim>\<open>ShapedRun\<close>.  The array \<^verbatim>\<open>fGlyphs\<close> is a list, and \<^verbatim>\<open>fNumGlyphs\<close>, the length the
  array is allocated with, is the length of the list.  The run's own \<^verbatim>\<open>fAdvance\<close> is the
  field \<open>fRunAdvance\<close> (a glyph has a field \<^verbatim>\<open>fAdvance\<close> too).
\<close>

record 'tf ShapedRun =
  fUtf8Start :: nat
  fUtf8End :: nat
  fFont :: "'tf SkFont"
  fLevel :: UBiDiLevel
  fGlyphs :: "ShapedGlyph list"
  fRunAdvance :: SkVector

definition fNumGlyphs :: "'tf ShapedRun \<Rightarrow> nat" where
  "fNumGlyphs run = length (fGlyphs run)"

text \<open>\<^verbatim>\<open>is_LTR\<close>: \<^verbatim>\<open>(level & 1) == 0\<close>.\<close>

definition is_LTR :: "UBiDiLevel \<Rightarrow> bool" where
  "is_LTR level = (level mod 2 = 0)"

text \<open>
  \<^verbatim>\<open>ShapedRunGlyphIterator\<close>.  The pointer \<^verbatim>\<open>fRuns\<close> is the argument \<open>runs\<close> of the
  methods.  \<^verbatim>\<open>next()\<close> changes the iterator (\<open>next_glyph\<close>) and returns what
  \<^verbatim>\<open>current()\<close> returns for the changed iterator.  A glyph pointer is dereferenced with
  \<open>current\<close>, and written through with \<open>set_must_break\<close>.
\<close>

record ShapedRunGlyphIterator =
  fRunIndex :: nat
  fGlyphIndex :: nat

definition iterator_begin :: ShapedRunGlyphIterator where
  "iterator_begin = \<lparr> fRunIndex = 0, fGlyphIndex = 0 \<rparr>"

definition next_glyph :: "'tf ShapedRun list \<Rightarrow> ShapedRunGlyphIterator \<Rightarrow> ShapedRunGlyphIterator" where
  "next_glyph runs it =
     (if fGlyphIndex it + 1 = fNumGlyphs (runs ! fRunIndex it)
      then \<lparr> fRunIndex = fRunIndex it + 1, fGlyphIndex = 0 \<rparr>
      else it\<lparr> fGlyphIndex := fGlyphIndex it + 1 \<rparr>)"

definition current :: "'tf ShapedRun list \<Rightarrow> ShapedRunGlyphIterator \<Rightarrow> ShapedGlyph option" where
  "current runs it =
     (if fRunIndex it \<ge> length runs then None
      else Some (fGlyphs (runs ! fRunIndex it) ! fGlyphIndex it))"

definition set_must_break :: "'tf ShapedRun list \<Rightarrow> ShapedRunGlyphIterator \<Rightarrow> 'tf ShapedRun list" where
  "set_must_break runs it =
     runs[fRunIndex it :=
       (runs ! fRunIndex it)\<lparr> fGlyphs :=
         (fGlyphs (runs ! fRunIndex it))[fGlyphIndex it :=
           (fGlyphs (runs ! fRunIndex it) ! fGlyphIndex it)\<lparr> fMustLineBreakBefore := True \<rparr>] \<rparr>]"

section \<open>The line-break pass\<close>

record 'tf LineBreakState =
  lbRuns :: "'tf ShapedRun list"
  widthSoFar :: SkScalar
  previousBreakValid :: bool
  canAddBreakNow :: bool
  previousBreak :: ShapedRunGlyphIterator
  glyphIterator :: ShapedRunGlyphIterator

text \<open>The body of the loop, for the glyph \<open>glyph\<close> that \<^verbatim>\<open>glyphIterator.current()\<close> returns.\<close>

definition line_break_step :: "SkScalar \<Rightarrow> ShapedGlyph \<Rightarrow> 'tf LineBreakState \<Rightarrow> 'tf LineBreakState" where
  "line_break_step width glyph s =
     (let s1 = (if canAddBreakNow s \<and> fMayLineBreakBefore glyph
                then s\<lparr> previousBreakValid := True, previousBreak := glyphIterator s \<rparr>
                else s);
          glyphWidth = fX (fAdvance glyph)
      in if widthSoFar s1 + glyphWidth < width
         then s1\<lparr> widthSoFar := widthSoFar s1 + glyphWidth,
                  glyphIterator := next_glyph (lbRuns s1) (glyphIterator s1),
                  canAddBreakNow := True \<rparr>
         else
           (let s2 = (if widthSoFar s1 = 0
                      then (let it = next_glyph (lbRuns s1) (glyphIterator s1)
                            in s1\<lparr> glyphIterator := it, previousBreak := it \<rparr>)
                      else if \<not> previousBreakValid s1
                      then s1\<lparr> previousBreak := glyphIterator s1 \<rparr>
                      else s1);
                s3 = s2\<lparr> glyphIterator := previousBreak s2 \<rparr>;
                s4 = (case current (lbRuns s3) (glyphIterator s3) of
                        None \<Rightarrow> s3
                      | Some g \<Rightarrow> s3\<lparr> lbRuns := set_must_break (lbRuns s3) (glyphIterator s3) \<rparr>)
            in s4\<lparr> widthSoFar := 0, previousBreakValid := False, canAddBreakNow := False \<rparr>))"

partial_function (option) line_break_loop ::
  "SkScalar \<Rightarrow> 'tf LineBreakState \<Rightarrow> 'tf LineBreakState option" where
  "line_break_loop width s =
     (case current (lbRuns s) (glyphIterator s) of
        None \<Rightarrow> Some s
      | Some glyph \<Rightarrow> line_break_loop width (line_break_step width glyph s))"

definition line_break_init :: "'tf ShapedRun list \<Rightarrow> 'tf LineBreakState" where
  "line_break_init runs =
     \<lparr> lbRuns = runs, widthSoFar = 0, previousBreakValid = False, canAddBreakNow = False,
       previousBreak = iterator_begin, glyphIterator = iterator_begin \<rparr>"

definition line_break_pass :: "SkScalar \<Rightarrow> 'tf ShapedRun list \<Rightarrow> 'tf ShapedRun list option" where
  "line_break_pass width runs = map_option lbRuns (line_break_loop width (line_break_init runs))"

section \<open>The reorder-and-emit pass\<close>

text \<open>
  Modelled from the spec: \<^verbatim>\<open>SkShaper::RunHandler\<close> is declared in \<^verbatim>\<open>SkShaper.h\<close>, which is
  not among the sources.  A \<open>RunInfo\<close> is \<open>{ line_index, run_advance, ascent, descent,
  leading }\<close>.  The sink is the list of its run buffers, in the order of the
  \<^verbatim>\<open>newRunBuffer\<close> requests: each with the arguments of the request and with what
  \<^verbatim>\<open>append\<close> writes into the buffer (a sink that provides the optional cluster and text
  regions).
\<close>

record RunInfo =
  line_index :: nat
  run_advance :: SkVector
  ascent :: SkScalar
  descent :: SkScalar
  leading :: SkScalar

record 'tf RunBuffer =
  info :: RunInfo
  font :: "'tf SkFont"
  num_glyphs :: nat
  utf8_byte_count :: nat
  glyphs :: "nat list"
  positions :: "SkPoint list"
  clusters :: "nat list"
  utf8text :: "nat \<times> nat"

text \<open>The loop of \<^verbatim>\<open>append\<close> over the glyphs it selects, in the order of the buffer.\<close>

fun append_positions :: "ShapedGlyph list \<Rightarrow> SkPoint \<Rightarrow> SkPoint list \<times> SkPoint" where
  "append_positions [] p = ([], p)"
| "append_positions (glyph # rest) p =
     (let pos = \<lparr> fX = fX p + fX (fOffset glyph), fY = fY p - fY (fOffset glyph) \<rparr>;
          p' = \<lparr> fX = fX p + fX (fAdvance glyph), fY = fY p + fY (fAdvance glyph) \<rparr>;
          r = append_positions rest p'
      in (pos # fst r, snd r))"

text \<open>\<^verbatim>\<open>unsigned len = end - start\<close>, with the wrap-around of the conversion.\<close>

definition append_len :: "nat \<Rightarrow> nat \<Rightarrow> nat" where
  "append_len start end_index = nat ((int end_index - int start) mod 2 ^ 32)"

definition append_glyphs :: "'tf ShapedRun \<Rightarrow> nat \<Rightarrow> nat \<Rightarrow> ShapedGlyph list" where
  "append_glyphs run start end_index =
     map (\<lambda>i. fGlyphs run ! (if is_LTR (fLevel run) then start + i else end_index - 1 - i))
       [0..<append_len start end_index]"

definition append ::
  "RunInfo \<Rightarrow> 'tf ShapedRun \<Rightarrow> nat \<Rightarrow> nat \<Rightarrow> SkPoint \<Rightarrow> 'tf RunBuffer \<times> SkPoint" where
  "append runInfo run start end_index p =
     (let len = append_len start end_index;
          selected = append_glyphs run start end_index;
          r = append_positions selected p
      in (\<lparr> info = runInfo, font = fFont run, num_glyphs = len,
             utf8_byte_count = fUtf8End run - fUtf8Start run,
             glyphs = map fID selected, positions = fst r, clusters = map fCluster selected,
             utf8text = (fUtf8Start run, fUtf8End run) \<rparr>,
          snd r))"

record 'tf EmitState =
  emitPreviousBreak :: ShapedRunGlyphIterator
  emitGlyphIterator :: ShapedRunGlyphIterator
  maxAscent :: SkScalar
  maxDescent :: SkScalar
  maxLeading :: SkScalar
  previousRunIndex :: int
  lineIndex :: nat
  currentPoint :: SkPoint
  handler :: "'tf RunBuffer list"

text \<open>
  The loop \<^verbatim>\<open>for (int i = 0; i < numRuns; ++i)\<close> that writes one line: \<open>visual\<close> are the
  entries \<^verbatim>\<open>logicalFromVisual[i]\<close> still to come.
\<close>

fun emit_runs ::
  "'tf ShapedRun list \<Rightarrow> nat \<Rightarrow> SkScalar \<Rightarrow> SkScalar \<Rightarrow> SkScalar
    \<Rightarrow> ShapedRunGlyphIterator \<Rightarrow> nat \<Rightarrow> nat
    \<Rightarrow> nat list \<Rightarrow> SkPoint \<Rightarrow> 'tf RunBuffer list \<times> SkPoint" where
  "emit_runs runs line asc desc lead previous runIndex glyphIndex [] p = ([], p)"
| "emit_runs runs line asc desc lead previous runIndex glyphIndex (v # visual) p =
     (let logicalIndex = fRunIndex previous + v;
          startGlyphIndex = (if logicalIndex = fRunIndex previous then fGlyphIndex previous else 0);
          endGlyphIndex = (if logicalIndex = runIndex then glyphIndex + 1
                           else fNumGlyphs (runs ! logicalIndex));
          run = runs ! logicalIndex;
          runInfo = \<lparr> line_index = line, run_advance = fRunAdvance run,
                      ascent = asc, descent = desc, leading = lead \<rparr>;
          r = append runInfo run startGlyphIndex endGlyphIndex p;
          rest = emit_runs runs line asc desc lead previous runIndex glyphIndex visual (snd r)
      in (fst r # fst rest, snd rest))"

definition emit_line ::
  "('tf, 'hb) Env \<Rightarrow> 'tf ShapedRun list \<Rightarrow> nat \<Rightarrow> SkScalar \<Rightarrow> SkScalar \<Rightarrow> SkScalar
    \<Rightarrow> ShapedRunGlyphIterator \<Rightarrow> nat \<Rightarrow> nat \<Rightarrow> SkPoint \<Rightarrow> 'tf RunBuffer list \<times> SkPoint" where
  "emit_line env runs line asc desc lead previous runIndex glyphIndex p =
     (let numRuns = runIndex - fRunIndex previous + 1;
          runLevels = map (\<lambda>i. fLevel (runs ! (fRunIndex previous + i))) [0..<numRuns];
          logicalFromVisual = ubidi_reorderVisual env runLevels
      in emit_runs runs line asc desc lead previous runIndex glyphIndex
           (map (\<lambda>i. logicalFromVisual ! i) [0..<numRuns]) p)"

text \<open>The body of the loop, entered when \<^verbatim>\<open>glyphIterator.current()\<close> is not null.\<close>

definition emit_step ::
  "('tf, 'hb) Env \<Rightarrow> SkPoint \<Rightarrow> 'tf ShapedRun list \<Rightarrow> 'tf EmitState \<Rightarrow> 'tf EmitState" where
  "emit_step env point runs s =
     (let runIndex = fRunIndex (emitGlyphIterator s);
          glyphIndex = fGlyphIndex (emitGlyphIterator s);
          it = next_glyph runs (emitGlyphIterator s);
          nextGlyph = current runs it;
          s1 = (if previousRunIndex s \<noteq> int runIndex
                then (let metrics = getMetrics env (fFont (runs ! runIndex))
                      in s\<lparr> maxAscent := min (maxAscent s) (fAscent metrics),
                            maxDescent := max (maxDescent s) (fDescent metrics),
                            maxLeading := max (maxLeading s) (fLeading metrics),
                            previousRunIndex := int runIndex \<rparr>)
                else s);
          s2 = s1\<lparr> emitGlyphIterator := it \<rparr>
      in if \<not> (nextGlyph = None \<or> fMustLineBreakBefore (the nextGlyph)) then s2
         else
           (let p1 = (currentPoint s2)\<lparr> fY := fY (currentPoint s2) - maxAscent s2 \<rparr>;
                r = emit_line env runs (lineIndex s2) (maxAscent s2) (maxDescent s2) (maxLeading s2)
                      (emitPreviousBreak s2) runIndex glyphIndex p1;
                p2 = \<lparr> fX = fX point, fY = fY (snd r) + (maxDescent s2 + maxLeading s2) \<rparr>
            in s2\<lparr> handler := handler s2 @ fst r, currentPoint := p2,
                   maxAscent := 0, maxDescent := 0, maxLeading := 0,
                   previousRunIndex := - 1, lineIndex := lineIndex s2 + 1,
                   emitPreviousBreak := it \<rparr>))"

partial_function (option) emit_loop ::
  "('tf, 'hb) Env \<Rightarrow> SkPoint \<Rightarrow> 'tf ShapedRun list \<Rightarrow> 'tf EmitState \<Rightarrow> 'tf EmitState option" where
  "emit_loop env point runs s =
     (case current runs (emitGlyphIterator s) of
        None \<Rightarrow> Some s
      | Some glyph \<Rightarrow> emit_loop env point runs (emit_step env point runs s))"

definition emit_init :: "SkPoint \<Rightarrow> 'tf EmitState" where
  "emit_init point =
     \<lparr> emitPreviousBreak = iterator_begin, emitGlyphIterator = iterator_begin,
       maxAscent = 0, maxDescent = 0, maxLeading = 0, previousRunIndex = - 1, lineIndex = 0,
       currentPoint = point, handler = [] \<rparr>"

text \<open>The pass gives the sink's run buffers and the final \<^verbatim>\<open>currentPoint\<close>.\<close>

definition emit_pass ::
  "('tf, 'hb) Env \<Rightarrow> SkPoint \<Rightarrow> 'tf ShapedRun list \<Rightarrow> ('tf RunBuffer list \<times> SkPoint) option" where
  "emit_pass env point runs =
     map_option (\<lambda>s. (handler s, currentPoint s)) (emit_loop env point runs (emit_init point))"

section \<open>Glyphs in logical order, and lines\<close>

text \<open>
  All glyphs of the runs in logical order, and the place of the iterator in that order.
  An iterator is valid when it points at a glyph; the iterator past the last run is
  \<open>iterator_end\<close>.
\<close>

definition all_glyphs :: "'tf ShapedRun list \<Rightarrow> ShapedGlyph list" where
  "all_glyphs runs = concat (map fGlyphs runs)"

definition glyph_position :: "'tf ShapedRun list \<Rightarrow> ShapedRunGlyphIterator \<Rightarrow> nat" where
  "glyph_position runs it =
     sum_list (map fNumGlyphs (take (fRunIndex it) runs)) + fGlyphIndex it"

definition valid_iterator :: "'tf ShapedRun list \<Rightarrow> ShapedRunGlyphIterator \<Rightarrow> bool" where
  "valid_iterator runs it \<longleftrightarrow>
     fRunIndex it < length runs \<and> fGlyphIndex it < fNumGlyphs (runs ! fRunIndex it)"

definition iterator_end :: "'tf ShapedRun list \<Rightarrow> ShapedRunGlyphIterator" where
  "iterator_end runs = \<lparr> fRunIndex = length runs, fGlyphIndex = 0 \<rparr>"

definition nonempty_runs :: "'tf ShapedRun list \<Rightarrow> bool" where
  "nonempty_runs runs \<longleftrightarrow> list_all (\<lambda>run. fGlyphs run \<noteq> []) runs"

definition no_breaks :: "'tf ShapedRun list \<Rightarrow> bool" where
  "no_breaks runs \<longleftrightarrow> list_all (\<lambda>g. \<not> fMustLineBreakBefore g) (all_glyphs runs)"

definition advance_x_sum :: "ShapedGlyph list \<Rightarrow> SkScalar" where
  "advance_x_sum gs = sum_list (map (\<lambda>g. fX (fAdvance g)) gs)"

definition advance_y_sum :: "ShapedGlyph list \<Rightarrow> SkScalar" where
  "advance_y_sum gs = sum_list (map (\<lambda>g. fY (fAdvance g)) gs)"

text \<open>
  The lines of a glyph sequence, as the reorder-and-emit pass finds them: a line ends
  with a glyph whose successor is absent or has \<^verbatim>\<open>fMustLineBreakBefore\<close> set.
\<close>

function lines_of :: "ShapedGlyph list \<Rightarrow> ShapedGlyph list list" where
  "lines_of [] = []"
| "lines_of (g # gs) =
     (g # takeWhile (\<lambda>h. \<not> fMustLineBreakBefore h) gs)
       # lines_of (dropWhile (\<lambda>h. \<not> fMustLineBreakBefore h) gs)"
  by pat_completeness auto
termination
  by (relation "measure length") (auto simp: length_dropWhile_le less_Suc_eq_le)

section \<open>Invariants of the line-break pass\<close>

text \<open>
  A line is within the width, or it is an emergency line: its last glyph does not fit by
  itself, and the glyphs before it have the width 0 (none, in the simplest case).
\<close>

definition good_line :: "SkScalar \<Rightarrow> ShapedGlyph list \<Rightarrow> bool" where
  "good_line width line \<longleftrightarrow>
     advance_x_sum line < width
     \<or> (line \<noteq> [] \<and> advance_x_sum (butlast line) = 0 \<and> \<not> fX (fAdvance (last line)) < width)"

text \<open>
  Where the body of the loop breaks the line for the glyph \<open>glyph\<close>: after this glyph
  (\<^verbatim>\<open>widthSoFar == 0\<close>), before it (no candidate), or at the candidate.
\<close>

definition break_target :: "'tf LineBreakState \<Rightarrow> ShapedGlyph \<Rightarrow> ShapedRunGlyphIterator" where
  "break_target s glyph =
     (if widthSoFar s = 0 then next_glyph (lbRuns s) (glyphIterator s)
      else if canAddBreakNow s \<and> fMayLineBreakBefore glyph then glyphIterator s
      else if previousBreakValid s then previousBreak s
      else glyphIterator s)"

text \<open>
  The state at the head of the loop, with the place \<open>ls\<close> where the current line starts:
  the iterator is at or after the start of the line, \<^verbatim>\<open>widthSoFar\<close> is the width of the
  glyphs of the line before the iterator and is less than the width when there are any,
  \<^verbatim>\<open>canAddBreakNow\<close> says that there are any, and a valid candidate break is inside the
  line, with glyphs before it that fit.
\<close>

definition lb_core :: "SkScalar \<Rightarrow> nat \<Rightarrow> 'tf LineBreakState \<Rightarrow> bool" where
  "lb_core width ls s \<longleftrightarrow>
     (let runs = lbRuns s; G = all_glyphs runs;
          c = glyph_position runs (glyphIterator s);
          b = glyph_position runs (previousBreak s)
      in nonempty_runs runs
         \<and> (valid_iterator runs (glyphIterator s) \<or> glyphIterator s = iterator_end runs)
         \<and> ls \<le> c
         \<and> widthSoFar s = advance_x_sum (take (c - ls) (drop ls G))
         \<and> (canAddBreakNow s \<longleftrightarrow> ls < c)
         \<and> (ls < c \<longrightarrow> widthSoFar s < width)
         \<and> (previousBreakValid s \<longrightarrow>
               valid_iterator runs (previousBreak s) \<and> ls < b \<and> b < c
               \<and> advance_x_sum (take (b - ls) (drop ls G)) < width))"

text \<open>
  The flags and the finished lines: a flag is set only at the start of a line after the
  first, the current line's first glyph has it, and the lines before \<open>ls\<close> are good.
\<close>

definition lb_lines :: "SkScalar \<Rightarrow> nat \<Rightarrow> 'tf LineBreakState \<Rightarrow> bool" where
  "lb_lines width ls s \<longleftrightarrow>
     (let G = all_glyphs (lbRuns s)
      in (\<forall>p<length G. fMustLineBreakBefore (G ! p) \<longrightarrow> 0 < p \<and> p \<le> ls)
         \<and> (0 < ls \<and> ls < length G \<longrightarrow> fMustLineBreakBefore (G ! ls))
         \<and> (\<forall>line\<in>set (lines_of (take ls G)). good_line width line))"

definition lb_measure :: "nat \<Rightarrow> 'tf LineBreakState \<Rightarrow> nat" where
  "lb_measure ls s =
     (let T = length (all_glyphs (lbRuns s))
      in (T - ls) * (T + 1) + (T - glyph_position (lbRuns s) (glyphIterator s)))"

section \<open>An example environment\<close>

text \<open>
  A text of one-byte code points \<open>A\<close>, \<open>B\<close>, \<open>C\<close>, ... in which every two code points
  are one script, a left-to-right paragraph, a primary typeface (number 0) that covers every
  code point, no fallback, and a shaping engine that gives every code point one glyph
  of advance 1.
\<close>

definition example_env :: "(nat, nat) Env" where
  "example_env =
     \<lparr> decodeUTF8 = (\<lambda>ptr end_ptr. (int ptr + 65, 0)),
       u_strFromUTF8 = (\<lambda>n. Some (int n)),
       ubidi_openSized = (\<lambda>n. True),
       ubidi_setPara = (\<lambda>n level. Some \<lparr>ubidi_getLength = n, ubidi_getLevelAt = (\<lambda>i. 0)\<rparr>),
       ubidi_reorderVisual = (\<lambda>levels. [0..<length levels]),
       hb_unicode_script = (\<lambda>u. HB_SCRIPT_OTHER (nat (u - 65) div 2)),
       charsToGlyphs = (\<lambda>tf u. tf = 0),
       matchFamilyStyleCharacter = (\<lambda>u. None),
       hb_font_of_typeface = (\<lambda>tf. Some tf),
       hb_shape = (\<lambda>hb items script ltr.
         map (\<lambda>(u, c). (\<lparr>codepoint = nat u, cluster = c\<rparr>,
                         \<lparr>x_advance = 1, y_advance = 0, x_offset = 0, y_offset = 0\<rparr>)) items),
       hb_font_get_scale = (\<lambda>hb. (1, 1)),
       getMetrics = (\<lambda>font. \<lparr>fAscent = - 1, fDescent = 1, fLeading = 0\<rparr>),
       utext_openUTF8 = (\<lambda>n. True),
       ubrk_setUText = Some [0] \<rparr>"

text \<open>Glyphs and runs as the segment-and-shape pass stores them, for the examples.\<close>

definition example_glyph :: "nat \<Rightarrow> SkScalar \<Rightarrow> SkScalar \<Rightarrow> bool \<Rightarrow> ShapedGlyph" where
  "example_glyph c ax ay may =
     \<lparr> fID = c, fCluster = c, fOffset = \<lparr> fX = 0, fY = 0 \<rparr>, fAdvance = \<lparr> fX = ax, fY = ay \<rparr>,
       fMayLineBreakBefore = may, fMustLineBreakBefore = False, fHasVisual = True \<rparr>"

definition example_run :: "nat \<Rightarrow> nat \<Rightarrow> UBiDiLevel \<Rightarrow> ShapedGlyph list \<Rightarrow> nat ShapedRun" where
  "example_run utf8Start utf8End level gs =
     \<lparr> fUtf8Start = utf8Start, fUtf8End = utf8End,
       fFont = \<lparr> fontTypeface = Some 0, fontSize = 1, fontScaleX = 1 \<rparr>,
       fLevel = level, fGlyphs = gs,
       fRunAdvance = \<lparr> fX = sum_list (map (\<lambda>g. fX (fAdvance g)) gs),
                       fY = sum_list (map (\<lambda>g. fY (fAdvance g)) gs) \<rparr> \<rparr>"

section \<open>Run segmentation: proofs\<close>

lemma queue_peek_in: "q \<noteq> [] \<Longrightarrow> queue_peek endOf its q \<in> set q"
  by (simp add: queue_peek_def arg_min_list_in)

lemma queue_peek_least:
  assumes "q \<noteq> []" and "i \<in> set q"
  shows "endOf (its ! queue_peek endOf its q) \<le> endOf (its ! i)"
proof -
  have "endOf (its ! queue_peek endOf its q) = Min ((\<lambda>i. endOf (its ! i)) ` set q)"
    unfolding queue_peek_def using f_arg_min_list_f [OF assms(1), of "\<lambda>i. endOf (its ! i)"] by simp
  then show ?thesis using assms(2) by simp
qed

lemma queue_ok_step:
  assumes "queue_ok valid_it its q" and "valid_it it'" and "cur = queue_peek endOf its q"
  shows "queue_ok valid_it (its[cur := it']) (queue_insert cur (queue_pop endOf its q))"
proof -
  from assms(1) have q: "q \<noteq> []" "distinct q" "set q = {..<length its}" "\<forall>it\<in>set its. valid_it it"
    by (auto simp: queue_ok_def)
  have cur: "cur \<in> set q" using q(1) assms(3) by (simp add: queue_peek_in)
  have "set (queue_insert cur (queue_pop endOf its q)) = set q"
    using cur q(2) assms(3) by (auto simp: queue_insert_def queue_pop_def)
  moreover have "distinct (queue_insert cur (queue_pop endOf its q))"
    using q(2) assms(3) by (auto simp: queue_insert_def queue_pop_def)
  moreover have "\<forall>it\<in>set (its[cur := it']). valid_it it"
    using q(4) assms(2) by (auto dest!: set_update_subset_insert [THEN subsetD])
  ultimately show ?thesis using q by (simp add: queue_ok_def queue_insert_def)
qed

lemma advanceRuns_loop_total:
  assumes c: "iterator_contract consume_it endOf at_end valid_it N"
    and "queue_ok valid_it its q" and "L < N" and "\<forall>i<length its. L \<le> endOf (its ! i)"
  shows "\<exists>its' q'. advanceRuns_loop consume_it endOf L its q = Some (Inr (its', q'))
           \<and> queue_ok valid_it its' q' \<and> length its' = length its
           \<and> (\<forall>i<length its. L < endOf (its' ! i))"
  using assms(2,4)
proof (induction "card {i. i < length its \<and> endOf (its ! i) = L}" arbitrary: its q rule: less_induct)
  case less
  from less.prems(1) have q: "q \<noteq> []" "distinct q" "set q = {..<length its}" "\<forall>it\<in>set its. valid_it it"
    by (auto simp: queue_ok_def)
  define cur where "cur = queue_peek endOf its q"
  have cur_in: "cur \<in> set q" using q(1) by (simp add: cur_def queue_peek_in)
  then have cur_lt: "cur < length its" using q(3) by simp
  show ?case
  proof (cases "endOf (its ! cur) \<le> L")
    case True
    then have eq: "endOf (its ! cur) = L" using less.prems(2) cur_lt by (simp add: le_antisym)
    have vcur: "valid_it (its ! cur)" using q(4) cur_lt by simp
    then have "\<not> at_end (its ! cur)" using c eq \<open>L < N\<close> by (auto simp: iterator_contract_def)
    then obtain it' where it': "consume_it (its ! cur) = Inr it'" "valid_it it'" "L < endOf it'"
      using c vcur eq unfolding iterator_contract_def by blast
    let ?its = "its[cur := it']" and ?q = "queue_insert cur (queue_pop endOf its q)"
    have ok: "queue_ok valid_it ?its ?q" using queue_ok_step [OF less.prems(1) it'(2) cur_def] .
    have ge: "\<forall>i<length ?its. L \<le> endOf (?its ! i)"
      using less.prems(2) it'(3) cur_lt by (auto simp: nth_list_update less_imp_le)
    have sub: "{i. i < length ?its \<and> endOf (?its ! i) = L} = {i. i < length its \<and> endOf (its ! i) = L} - {cur}"
      using it'(3) cur_lt by (auto simp: nth_list_update)
    have "card {i. i < length ?its \<and> endOf (?its ! i) = L} < card {i. i < length its \<and> endOf (its ! i) = L}"
      unfolding sub using cur_lt eq by (intro card_Diff1_less) auto
    from less.hyps [OF this ok ge]
    obtain its' q' where r: "advanceRuns_loop consume_it endOf L ?its ?q = Some (Inr (its', q'))"
      "queue_ok valid_it its' q'" "length its' = length ?its" "\<forall>i<length ?its. L < endOf (its' ! i)"
      by blast
    have "advanceRuns_loop consume_it endOf L its q = Some (Inr (its', q'))"
      by (subst advanceRuns_loop.simps) (simp add: cur_def [symmetric] True it'(1) r(1))
    then show ?thesis using r by simp
  next
    case False
    have "\<forall>i<length its. L < endOf (its ! i)"
    proof (intro allI impI)
      fix i assume "i < length its"
      then have "i \<in> set q" using q(3) by simp
      from queue_peek_least [OF q(1) this, of endOf its] False show "L < endOf (its ! i)"
        by (simp add: cur_def)
    qed
    moreover have "advanceRuns_loop consume_it endOf L its q = Some (Inr (its, q))"
      by (subst advanceRuns_loop.simps) (simp add: cur_def [symmetric] False)
    ultimately show ?thesis using less.prems(1) by simp
  qed
qed

lemma partitions_append:
  "partitions a b segs \<Longrightarrow> b < c \<Longrightarrow> partitions a c (segs @ [(b, c)])"
  by (induction a b segs rule: partitions.induct) auto

lemma segment_loop_partitions:
  assumes c: "iterator_contract consume_it endOf at_end valid_it N"
    and "queue_ok valid_it its q" and "utf8End = queue_endOfCurrentRun endOf its q"
    and "partitions 0 utf8End acc"
  shows "\<exists>segs. segment_loop consume_it endOf at_end record_segment utf8End its q acc = Some (Inr segs)
           \<and> partitions 0 N segs"
  using assms(2-)
proof (induction "N - utf8End" arbitrary: its q utf8End acc rule: less_induct)
  case less
  from less.prems(1) have q: "q \<noteq> []" "distinct q" "set q = {..<length its}" "\<forall>it\<in>set its. valid_it it"
    by (auto simp: queue_ok_def)
  define cur where "cur = queue_peek endOf its q"
  have cur_in: "cur \<in> set q" using q(1) by (simp add: cur_def queue_peek_in)
  then have cur_lt: "cur < length its" using q(3) by simp
  have vcur: "valid_it (its ! cur)" using q(4) cur_lt by simp
  have e: "utf8End = endOf (its ! cur)" using less.prems(2) by (simp add: queue_endOfCurrentRun_def cur_def)
  show ?case
  proof (cases "at_end (its ! cur)")
    case True
    then have "utf8End = N" using c vcur e by (auto simp: iterator_contract_def)
    moreover have "segment_loop consume_it endOf at_end record_segment utf8End its q acc = Some (Inr acc)"
      by (subst segment_loop.simps) (simp add: advanceRuns_def cur_def [symmetric] True)
    ultimately show ?thesis using less.prems(3) by simp
  next
    case False
    then have lt: "utf8End < N" using c vcur e by (auto simp: iterator_contract_def)
    have ge: "\<forall>i<length its. utf8End \<le> endOf (its ! i)"
      using queue_peek_least [OF q(1), of _ endOf its] q(3) by (simp add: e cur_def)
    from advanceRuns_loop_total [OF c less.prems(1) lt ge]
    obtain its' q' where r: "advanceRuns_loop consume_it endOf utf8End its q = Some (Inr (its', q'))"
      "queue_ok valid_it its' q'" "length its' = length its" "\<forall>i<length its. utf8End < endOf (its' ! i)"
      by blast
    define e' where "e' = queue_endOfCurrentRun endOf its' q'"
    from r(2) have q': "q' \<noteq> []" "set q' = {..<length its'}" "\<forall>it\<in>set its'. valid_it it"
      by (auto simp: queue_ok_def)
    have p_lt: "queue_peek endOf its' q' < length its'" using queue_peek_in [OF q'(1), of endOf its'] q'(2) by simp
    then have gt: "utf8End < e'" using r(3,4) by (simp add: e'_def queue_endOfCurrentRun_def)
    have "valid_it (its' ! queue_peek endOf its' q')" using q'(3) p_lt by simp
    then have le: "e' \<le> N" using c by (auto simp: iterator_contract_def e'_def queue_endOfCurrentRun_def)
    have part: "partitions 0 e' (acc @ [(utf8End, e')])"
      using partitions_append [OF less.prems(3) gt] .
    have "N - e' < N - utf8End" using gt le by simp
    from less.hyps [OF this r(2) e'_def part]
    obtain segs where s: "segment_loop consume_it endOf at_end record_segment e' its' q' (acc @ [(utf8End, e')]) = Some (Inr segs)"
      "partitions 0 N segs" by blast
    have "segment_loop consume_it endOf at_end record_segment utf8End its q acc = Some (Inr segs)"
      by (subst segment_loop.simps)
        (simp add: advanceRuns_def cur_def [symmetric] False e [symmetric] r(1) e'_def [symmetric]
          record_segment_def s(1))
    then show ?thesis using s(2) by simp
  qed
qed

lemma initial_queue: "foldl (\<lambda>q i. queue_insert i q) [] [0..<n] = [0..<n]"
  by (induction n) (simp_all add: queue_insert_def)

lemma Script_consume_loop_bounds:
  "fScriptCurrent it \<le> fScriptEnd it \<Longrightarrow>
     fScriptCurrent it \<le> fScriptCurrent (Script_consume_loop env it)
     \<and> fScriptCurrent (Script_consume_loop env it) \<le> fScriptEnd it
     \<and> fScriptEnd (Script_consume_loop env it) = fScriptEnd it"
proof (induction "fScriptEnd it - fScriptCurrent it" arbitrary: it rule: less_induct)
  case less
  show ?case
  proof (cases "fScriptCurrent it < fScriptEnd it")
    case False
    have "Script_consume_loop env it = it"
      by (subst Script_consume_loop.simps) (simp add: False)
    then show ?thesis using less.prems by simp
  next
    case True
    define r where "r = utf8_next env (fScriptCurrent it) (fScriptEnd it)"
    define it1 where "it1 = it\<lparr>fScriptCurrent := snd r\<rparr>"
    have adv: "fScriptCurrent it < snd r \<and> snd r \<le> fScriptEnd it"
      using utf8_next_advances [of env "fScriptCurrent it" "fScriptEnd it" "fst r" "snd r"] True
      by (simp add: r_def)
    have ih: "fScriptCurrent it \<le> fScriptCurrent (Script_consume_loop env (it1\<lparr>fCurrentScript := s\<rparr>))
       \<and> fScriptCurrent (Script_consume_loop env (it1\<lparr>fCurrentScript := s\<rparr>)) \<le> fScriptEnd it
       \<and> fScriptEnd (Script_consume_loop env (it1\<lparr>fCurrentScript := s\<rparr>)) = fScriptEnd it" for s
      using less.hyps [of "it1\<lparr>fCurrentScript := s\<rparr>"] adv
      by (simp add: it1_def diff_less_mono2)
    have ih1: "fScriptCurrent it \<le> fScriptCurrent (Script_consume_loop env it1)
       \<and> fScriptCurrent (Script_consume_loop env it1) \<le> fScriptEnd it
       \<and> fScriptEnd (Script_consume_loop env it1) = fScriptEnd it"
      using less.hyps [of it1] adv by (simp add: it1_def diff_less_mono2)
    have eq: "Script_consume_loop env it =
       (let script = hb_unicode_script env (fst r)
         in if script \<noteq> fCurrentScript it1 then
              (if fCurrentScript it1 = HB_SCRIPT_INHERITED \<or> fCurrentScript it1 = HB_SCRIPT_COMMON
               then Script_consume_loop env (it1\<lparr>fCurrentScript := script\<rparr>)
               else if script = HB_SCRIPT_INHERITED \<or> script = HB_SCRIPT_COMMON
               then Script_consume_loop env it1
               else it1\<lparr>fScriptCurrent := fScriptCurrent it\<rparr>)
            else Script_consume_loop env it1)"
      by (subst Script_consume_loop.simps) (simp add: True Let_def r_def it1_def)
    show ?thesis
      unfolding eq Let_def using ih ih1 less.prems by (simp add: it1_def)
  qed
qed

lemma Script_consume_advances:
  assumes "fScriptCurrent it < fScriptEnd it"
  shows "fScriptCurrent it < fScriptCurrent (Script_consume env it)
     \<and> fScriptCurrent (Script_consume env it) \<le> fScriptEnd it
     \<and> fScriptEnd (Script_consume env it) = fScriptEnd it"
proof -
  define r where "r = utf8_next env (fScriptCurrent it) (fScriptEnd it)"
  define it1 where "it1 = it\<lparr>fScriptCurrent := snd r, fCurrentScript := hb_unicode_script env (fst r)\<rparr>"
  have adv: "fScriptCurrent it < snd r \<and> snd r \<le> fScriptEnd it"
    using utf8_next_advances [of env "fScriptCurrent it" "fScriptEnd it" "fst r" "snd r"] assms
    by (simp add: r_def)
  then have "fScriptCurrent it1 \<le> fScriptEnd it1" by (simp add: it1_def)
  from Script_consume_loop_bounds [OF this, of env] adv
  show ?thesis
    by (simp add: Script_consume_def Let_def r_def [symmetric] it1_def [symmetric]) (simp add: it1_def)
qed

lemma Script_contract:
  "iterator_contract (consume env) endOfCurrentRun atEnd (valid_script N) N"
  unfolding iterator_contract_def valid_script_def
  using Script_consume_advances [of _ env]
  by (auto split: RunIterator.splits simp: le_neq_implies_less)


section \<open>The glyph cursor: proofs\<close>

lemma nonempty_runsD: "nonempty_runs runs \<Longrightarrow> i < length runs \<Longrightarrow> 0 < fNumGlyphs (runs ! i)"
  by (simp add: nonempty_runs_def list_all_length fNumGlyphs_def)

lemma length_all_glyphs: "length (all_glyphs runs) = sum_list (map fNumGlyphs runs)"
  by (induction runs) (simp_all add: all_glyphs_def fNumGlyphs_def)

lemma all_glyphs_split:
  assumes "i < length runs"
  shows "all_glyphs runs =
    all_glyphs (take i runs) @ fGlyphs (runs ! i) @ all_glyphs (drop (Suc i) runs)"
proof -
  have "runs = take i runs @ runs ! i # drop (Suc i) runs"
    using assms by (rule id_take_nth_drop)
  then have "all_glyphs runs = all_glyphs (take i runs @ runs ! i # drop (Suc i) runs)" by simp
  then show ?thesis by (simp add: all_glyphs_def)
qed

lemma glyph_position_valid:
  assumes "valid_iterator runs it"
  shows "glyph_position runs it < length (all_glyphs runs)"
    and "all_glyphs runs ! glyph_position runs it = fGlyphs (runs ! fRunIndex it) ! fGlyphIndex it"
proof -
  from assms have i: "fRunIndex it < length runs" and j: "fGlyphIndex it < length (fGlyphs (runs ! fRunIndex it))"
    by (simp_all add: valid_iterator_def fNumGlyphs_def)
  note sp = all_glyphs_split [OF i]
  have len: "length (all_glyphs (take (fRunIndex it) runs)) = sum_list (map fNumGlyphs (take (fRunIndex it) runs))"
    by (rule length_all_glyphs)
  show "glyph_position runs it < length (all_glyphs runs)"
    by (subst sp) (simp add: glyph_position_def len j trans_less_add1)
  show "all_glyphs runs ! glyph_position runs it = fGlyphs (runs ! fRunIndex it) ! fGlyphIndex it"
    by (subst sp) (simp add: glyph_position_def len [symmetric] nth_append j)
qed

lemma glyph_position_end: "glyph_position runs (iterator_end runs) = length (all_glyphs runs)"
  by (simp add: glyph_position_def iterator_end_def length_all_glyphs)

lemma current_valid:
  "valid_iterator runs it \<Longrightarrow> current runs it = Some (all_glyphs runs ! glyph_position runs it)"
  by (simp add: current_def glyph_position_valid(2)) (simp add: valid_iterator_def)

lemma current_end: "current runs (iterator_end runs) = None"
  by (simp add: current_def iterator_end_def)

lemma current_SomeD:
  assumes "current runs it = Some g" and "valid_iterator runs it \<or> it = iterator_end runs"
  shows "valid_iterator runs it"
  using assms by (auto simp: current_end)

lemma next_glyph_valid:
  assumes "valid_iterator runs it" and "nonempty_runs runs"
  shows "glyph_position runs (next_glyph runs it) = Suc (glyph_position runs it)"
    and "valid_iterator runs (next_glyph runs it) \<or> next_glyph runs it = iterator_end runs"
proof -
  from assms(1) have i: "fRunIndex it < length runs" and j: "fGlyphIndex it < fNumGlyphs (runs ! fRunIndex it)"
    by (simp_all add: valid_iterator_def)
  show "glyph_position runs (next_glyph runs it) = Suc (glyph_position runs it)"
    using i j by (auto simp: next_glyph_def glyph_position_def take_Suc_conv_app_nth)
  show "valid_iterator runs (next_glyph runs it) \<or> next_glyph runs it = iterator_end runs"
  proof (cases "fGlyphIndex it + 1 = fNumGlyphs (runs ! fRunIndex it)")
    case True
    show ?thesis
    proof (cases "Suc (fRunIndex it) < length runs")
      case True
      with nonempty_runsD [OF assms(2) this] \<open>fGlyphIndex it + 1 = _\<close>
      show ?thesis by (simp add: next_glyph_def valid_iterator_def)
    next
      case False
      with i have "Suc (fRunIndex it) = length runs" by simp
      with True show ?thesis by (simp add: next_glyph_def iterator_end_def)
    qed
  next
    case False
    with i j show ?thesis by (simp add: next_glyph_def valid_iterator_def)
  qed
qed

lemma valid_begin:
  "nonempty_runs runs \<Longrightarrow> valid_iterator runs iterator_begin \<or> iterator_begin = iterator_end runs"
  using nonempty_runsD [of runs 0]
  by (cases runs) (auto simp: valid_iterator_def iterator_begin_def iterator_end_def)

lemma glyph_position_begin: "glyph_position runs iterator_begin = 0"
  by (simp add: glyph_position_def iterator_begin_def)

text \<open>Writing the flag leaves the shape of the runs and changes one glyph.\<close>

lemma set_must_break_shape:
  "map fNumGlyphs (set_must_break runs it) = map fNumGlyphs runs"
proof (cases "fRunIndex it < length runs")
  case True
  have "fNumGlyphs ((runs ! fRunIndex it)\<lparr> fGlyphs :=
         (fGlyphs (runs ! fRunIndex it))[fGlyphIndex it :=
           (fGlyphs (runs ! fRunIndex it) ! fGlyphIndex it)\<lparr> fMustLineBreakBefore := True \<rparr>] \<rparr>)
       = map fNumGlyphs runs ! fRunIndex it"
    using True by (simp add: fNumGlyphs_def)
  then show ?thesis
    by (simp add: set_must_break_def map_update list_update_id)
next
  case False
  then show ?thesis by (simp add: set_must_break_def list_update_beyond)
qed


lemma glyph_position_shape:
  "map fNumGlyphs runs' = map fNumGlyphs runs \<Longrightarrow> glyph_position runs' it = glyph_position runs it"
  by (simp add: glyph_position_def take_map [symmetric])

lemma length_shape: "map fNumGlyphs runs' = map fNumGlyphs runs \<Longrightarrow> length runs' = length runs"
  by (rule map_eq_imp_length_eq)

lemma nth_shape:
  assumes eq: "map fNumGlyphs runs' = map fNumGlyphs runs" and i: "i < length runs"
  shows "fNumGlyphs (runs' ! i) = fNumGlyphs (runs ! i)"
proof -
  from i have i': "i < length runs'" using length_shape [OF eq] by simp
  have "fNumGlyphs (runs' ! i) = map fNumGlyphs runs' ! i" using i' by simp
  also have "\<dots> = fNumGlyphs (runs ! i)" using i by (simp add: eq)
  finally show ?thesis .
qed

lemma valid_iterator_shape:
  "map fNumGlyphs runs' = map fNumGlyphs runs \<Longrightarrow> valid_iterator runs' it = valid_iterator runs it"
  using length_shape [of runs' runs] nth_shape [of runs' runs "fRunIndex it"]
  by (auto simp: valid_iterator_def)

lemma iterator_end_shape:
  "map fNumGlyphs runs' = map fNumGlyphs runs \<Longrightarrow> iterator_end runs' = iterator_end runs"
  using length_shape [of runs' runs] by (simp add: iterator_end_def)

lemma next_glyph_shape:
  "map fNumGlyphs runs' = map fNumGlyphs runs \<Longrightarrow> fRunIndex it < length runs \<Longrightarrow>
     next_glyph runs' it = next_glyph runs it"
  using nth_shape [of runs' runs "fRunIndex it"] by (simp add: next_glyph_def)

lemma nonempty_runs_shape:
  "map fNumGlyphs runs' = map fNumGlyphs runs \<Longrightarrow> nonempty_runs runs' = nonempty_runs runs"
proof -
  assume eq: "map fNumGlyphs runs' = map fNumGlyphs runs"
  have "map (\<lambda>run. fGlyphs run \<noteq> []) runs' = map (\<lambda>n. n \<noteq> 0) (map fNumGlyphs runs')"
    by (simp add: fNumGlyphs_def)
  also have "\<dots> = map (\<lambda>run. fGlyphs run \<noteq> []) runs"
    unfolding eq by (simp add: fNumGlyphs_def)
  finally have "list_all id (map (\<lambda>run. fGlyphs run \<noteq> []) runs')
      = list_all id (map (\<lambda>run. fGlyphs run \<noteq> []) runs)" by simp
  then show ?thesis by (simp add: nonempty_runs_def list_all_iff)
qed

lemma length_all_glyphs_shape:
  "map fNumGlyphs runs' = map fNumGlyphs runs \<Longrightarrow> length (all_glyphs runs') = length (all_glyphs runs)"
  by (simp add: length_all_glyphs)

lemma all_glyphs_set_must_break:
  assumes "valid_iterator runs it"
  shows "all_glyphs (set_must_break runs it) =
    (all_glyphs runs)[glyph_position runs it :=
       (all_glyphs runs ! glyph_position runs it)\<lparr> fMustLineBreakBefore := True \<rparr>]"
proof -
  from assms have i: "fRunIndex it < length runs" and j: "fGlyphIndex it < length (fGlyphs (runs ! fRunIndex it))"
    by (simp_all add: valid_iterator_def fNumGlyphs_def)
  let ?i = "fRunIndex it" and ?j = "fGlyphIndex it"
  let ?g = "(fGlyphs (runs ! ?i) ! ?j)\<lparr> fMustLineBreakBefore := True \<rparr>"
  let ?r = "(runs ! ?i)\<lparr> fGlyphs := (fGlyphs (runs ! ?i))[?j := ?g] \<rparr>"
  have len: "length (all_glyphs (take ?i runs)) = sum_list (map fNumGlyphs (take ?i runs))"
    by (rule length_all_glyphs)
  have "set_must_break runs it = take ?i runs @ ?r # drop (Suc ?i) runs"
    using i by (simp add: set_must_break_def upd_conv_take_nth_drop)
  then have "all_glyphs (set_must_break runs it) =
      all_glyphs (take ?i runs) @ (fGlyphs (runs ! ?i))[?j := ?g] @ all_glyphs (drop (Suc ?i) runs)"
    by (simp add: all_glyphs_def)
  also have "\<dots> = (all_glyphs (take ?i runs) @ fGlyphs (runs ! ?i) @ all_glyphs (drop (Suc ?i) runs))
      [glyph_position runs it := ?g]"
    using j by (simp add: glyph_position_def len [symmetric] list_update_append)
  also have "\<dots> = (all_glyphs runs)[glyph_position runs it := ?g]"
    using all_glyphs_split [OF i] by simp
  finally show ?thesis by (simp add: glyph_position_valid(2) [OF assms])
qed

subsection \<open>Lines\<close>

lemma concat_lines_of: "concat (lines_of gs) = gs"
  by (induction gs rule: lines_of.induct) simp_all

lemma lines_of_single:
  assumes a: "\<forall>g\<in>set gs. \<not> fMustLineBreakBefore g"
  shows "lines_of (g # gs) = [g # gs]"
proof -
  have "takeWhile (\<lambda>h. \<not> fMustLineBreakBefore h) gs = gs"
    using a by (simp add: takeWhile_eq_all_conv)
  moreover have "dropWhile (\<lambda>h. \<not> fMustLineBreakBefore h) gs = []"
    using a by (simp add: dropWhile_eq_Nil_conv)
  ultimately show ?thesis by (simp only: lines_of.simps)
qed

lemma lines_of_append:
  assumes "ys \<noteq> []" and "xs \<noteq> [] \<longrightarrow> fMustLineBreakBefore (hd ys)"
    and "\<forall>g\<in>set (tl ys). \<not> fMustLineBreakBefore g"
  shows "lines_of (xs @ ys) = lines_of xs @ [ys]"
  using assms
proof (induction xs rule: lines_of.induct)
  case 1
  then obtain y ys' where ys: "ys = y # ys'" by (cases ys) auto
  have "\<forall>g\<in>set ys'. \<not> fMustLineBreakBefore g" using "1.prems"(3) ys by simp
  then have "lines_of (y # ys') = [y # ys']" by (rule lines_of_single)
  then show ?case unfolding ys by (simp only: append_Nil lines_of.simps(1))
next
  case (2 g gs)
  let ?P = "\<lambda>h. \<not> fMustLineBreakBefore h"
  obtain y ys' where ys: "ys = y # ys'" using "2.prems"(1) by (cases ys) auto
  have y: "fMustLineBreakBefore y" using "2.prems"(2) ys by simp
  show ?case
  proof (cases "\<forall>h\<in>set gs. ?P h")
    case True
    then have tw: "takeWhile ?P (gs @ ys) = gs" and dw: "dropWhile ?P (gs @ ys) = ys"
      using y ys by (simp_all add: takeWhile_append2 dropWhile_append2)
    have "\<forall>g\<in>set ys'. \<not> fMustLineBreakBefore g" using "2.prems"(3) ys by simp
    then have "lines_of ys = [ys]" unfolding ys by (rule lines_of_single)
    moreover have "lines_of (g # gs) = [g # gs]" using True by (intro lines_of_single) simp
    moreover have "lines_of ((g # gs) @ ys) = (g # takeWhile ?P (gs @ ys)) # lines_of (dropWhile ?P (gs @ ys))"
      by simp
    ultimately show ?thesis by (simp only: tw dw append_Cons append_Nil)
  next
    case False
    then obtain h where h: "h \<in> set gs" "\<not> ?P h" by blast
    then have tw: "takeWhile ?P (gs @ ys) = takeWhile ?P gs"
      and dw: "dropWhile ?P (gs @ ys) = dropWhile ?P gs @ ys"
      by (simp_all add: takeWhile_append1 dropWhile_append1)
    have ne: "dropWhile ?P gs \<noteq> []" using h by (auto simp: dropWhile_eq_Nil_conv)
    have "lines_of (dropWhile ?P gs @ ys) = lines_of (dropWhile ?P gs) @ [ys]"
      using "2.IH" "2.prems" ne by simp
    then show ?thesis by (simp add: tw dw)
  qed
qed

lemma lines_of_flags_aux:
  "k < length (lines_of gs) \<Longrightarrow> j < length (lines_of gs ! k) \<Longrightarrow>
     fMustLineBreakBefore (lines_of gs ! k ! j) \<longleftrightarrow>
       j = 0 \<and> (0 < k \<or> fMustLineBreakBefore (hd gs))"
proof (induction gs arbitrary: k rule: lines_of.induct)
  case 1
  then show ?case by simp
next
  case (2 g gs)
  let ?P = "\<lambda>h. \<not> fMustLineBreakBefore h"
  show ?case
  proof (cases k)
    case 0
    show ?thesis
    proof (cases j)
      case 0
      with \<open>k = 0\<close> show ?thesis by simp
    next
      case (Suc j')
      with "2.prems" \<open>k = 0\<close> have "j' < length (takeWhile ?P gs)" by simp
      then have "?P (takeWhile ?P gs ! j')" by (rule nth_mem [THEN set_takeWhileD, THEN conjunct2])
      with Suc \<open>k = 0\<close> show ?thesis by simp
    qed
  next
    case (Suc k')
    with "2.prems" have k': "k' < length (lines_of (dropWhile ?P gs))"
      and j: "j < length (lines_of (dropWhile ?P gs) ! k')" by simp_all
    have ne: "dropWhile ?P gs \<noteq> []"
    proof
      assume "dropWhile ?P gs = []"
      then have "lines_of (dropWhile ?P gs) = []" by (simp only: lines_of.simps)
      with k' show False by simp
    qed
    then have "fMustLineBreakBefore (hd (dropWhile ?P gs))"
      using hd_dropWhile [of ?P gs] by simp
    with "2.IH" [OF k' j] Suc show ?thesis by simp
  qed
qed

lemma lines_of_flags:
  assumes "gs \<noteq> [] \<longrightarrow> \<not> fMustLineBreakBefore (hd gs)"
    and "k < length (lines_of gs)" and "j < length (lines_of gs ! k)"
  shows "fMustLineBreakBefore (lines_of gs ! k ! j) \<longleftrightarrow> 0 < k \<and> j = 0"
proof -
  from assms(2) have "gs \<noteq> []" by auto
  with assms(1) lines_of_flags_aux [OF assms(2,3)] show ?thesis by auto
qed

section \<open>The line-break pass: proofs\<close>

lemma line_break_step_accept:
  assumes "widthSoFar s + fX (fAdvance glyph) < width"
  shows "line_break_step width glyph s =
    s\<lparr> previousBreakValid := previousBreakValid s \<or> (canAddBreakNow s \<and> fMayLineBreakBefore glyph),
       previousBreak := (if canAddBreakNow s \<and> fMayLineBreakBefore glyph
                         then glyphIterator s else previousBreak s),
       widthSoFar := widthSoFar s + fX (fAdvance glyph),
       glyphIterator := next_glyph (lbRuns s) (glyphIterator s),
       canAddBreakNow := True \<rparr>"
  using assms
  by (cases "canAddBreakNow s"; cases "fMayLineBreakBefore glyph")
    (simp_all add: line_break_step_def Let_def)

lemma line_break_step_break:
  assumes "\<not> widthSoFar s + fX (fAdvance glyph) < width"
  shows "line_break_step width glyph s =
    s\<lparr> lbRuns := (case current (lbRuns s) (break_target s glyph) of
                    None \<Rightarrow> lbRuns s
                  | Some g \<Rightarrow> set_must_break (lbRuns s) (break_target s glyph)),
       widthSoFar := 0, previousBreakValid := False, canAddBreakNow := False,
       previousBreak := break_target s glyph, glyphIterator := break_target s glyph \<rparr>"
  using assms
  by (cases "canAddBreakNow s"; cases "fMayLineBreakBefore glyph"; cases "widthSoFar s = 0";
      cases "previousBreakValid s")
    (simp_all add: line_break_step_def Let_def break_target_def split: option.splits)

section \<open>The claims\<close>

text \<open>
  Claim C3.  For iterators that keep their contract (in particular, \<open>consume\<close> strictly
  advances the end of the current run), the segment loop of \<^verbatim>\<open>shape\<close> ends, and the
  segments \<open>[utf8Start, utf8End)\<close> of its successive successful \<^verbatim>\<open>advanceRuns\<close> calls
  partition \<open>[0, N]\<close>: the first starts at offset 0, each is non-empty (the boundaries
  strictly increase), each starts where the one before it ends, and the last ends at \<open>N\<close>.
\<close>

theorem segments_partition:
  assumes "iterator_contract consume_it endOf at_end valid_it N"
    and "its \<noteq> []" and "\<forall>it\<in>set its. valid_it it \<and> endOf it = 0"
  shows "\<exists>segs. segments consume_it endOf at_end its = Some (Inr segs) \<and> partitions 0 N segs"
proof -
  have ok: "queue_ok valid_it its [0..<length its]"
    using assms(2,3) by (auto simp: queue_ok_def)
  have "queue_peek endOf its [0..<length its] < length its"
    using queue_peek_in [of "[0..<length its]" endOf its] assms(2) by simp
  then have z: "0 = queue_endOfCurrentRun endOf its [0..<length its]"
    using assms(3) by (simp add: queue_endOfCurrentRun_def)
  show ?thesis
    unfolding segments_def initial_queue
    using segment_loop_partitions [OF assms(1) ok z] by simp
qed

theorem segments_partition_witness:
  "\<exists>segs. segments (consume example_env) endOfCurrentRun atEnd
       [Script (the (ScriptRunIterator_Make 0 5)), Script (the (ScriptRunIterator_Make 0 5))]
     = Some (Inr segs) \<and> partitions 0 5 segs"
  using segments_partition [OF Script_contract [of example_env 5],
      of "[Script (the (ScriptRunIterator_Make 0 5)), Script (the (ScriptRunIterator_Make 0 5))]"]
  by (simp add: valid_script_def ScriptRunIterator_Make_def)

text \<open>
  Claim C8.  When the font provider has no typeface for a code point that the primary
  typeface does not cover, \<^verbatim>\<open>FontRunIterator::consume\<close> makes the fallback slot and the
  current typeface null; if the text goes on with another code point that the primary
  typeface does not cover either, the extension loop calls \<^verbatim>\<open>charsToGlyphs\<close> through the
  null current typeface.  The call of \<^verbatim>\<open>shape\<close> does not continue with the remaining
  segments: it dereferences a null pointer.
\<close>

theorem Font_consume_null_fallback:
  assumes "fCurrent it < fEnd it"
    and "utf8_next env (fCurrent it) (fEnd it) = (u1, p1)"
    and "\<not> charsToGlyphs env (fTypeface it) u1"
    and "fFallbackTypeface it = None \<or> \<not> charsToGlyphs env (the (fFallbackTypeface it)) u1"
    and "matchFamilyStyleCharacter env u1 = None"
    and "p1 < fEnd it"
    and "utf8_next env p1 (fEnd it) = (u2, p2)"
    and "\<not> charsToGlyphs env (fTypeface it) u2"
  shows "Font_consume env it = Inl NullDereference"
proof -
  define it2 where "it2 = it\<lparr>fCurrent := p1, fFallbackTypeface := None, fFallbackHBFont := None,
    fCurrentTypeface := None, fCurrentHBFont := None\<rparr>"
  have "Font_consume env it = Font_consume_loop env it2"
    using assms(2-5) by (auto simp: Font_consume_def Let_def create_hb_font_def it2_def)
  also have "\<dots> = Inl NullDereference"
    using assms(6-8) by (subst Font_consume_loop.simps) (simp add: Let_def it2_def)
  finally show ?thesis .
qed

theorem Font_consume_null_fallback_witness:
  "Font_consume (example_env\<lparr>charsToGlyphs := \<lambda>tf u. False\<rparr>)
     (the (FontRunIterator_Make 0 2 0 (Some 0))) = Inl NullDereference"
  using Font_consume_null_fallback [of "the (FontRunIterator_Make 0 2 0 (Some 0))"
      "example_env\<lparr>charsToGlyphs := \<lambda>tf u. False\<rparr>" 65 1 66 2]
  by (simp add: FontRunIterator_Make_def example_env_def utf8_next_def NextUTF8_def)

end
